theory Spec2Isabelle
  imports Complex_Main
begin

section \<open>The frame-skipping Pong agent of Day04/add_FrameSkip.py\<close>

text \<open>
  The module holds one class, \<^verbatim>\<open>PongAgent\<close>, with a constructor and one method:
  \<^verbatim>\<open>
  def __init__(self, model_path, frame_skip=4):
      self.interpreter = tflite.Interpreter(model_path=model_path, num_threads=2)
      self.interpreter.allocate_tensors()
      self.input_details = self.interpreter.get_input_details()
      self.output_details = self.interpreter.get_output_details()
      self.frame_skip = frame_skip
      self.frame_count = 0
      self.last_action = 1

  def get_action(self, state):
      self.frame_count += 1
      if self.frame_count % self.frame_skip == 0:
          input_data = np.array([state], dtype=np.float32)
          self.interpreter.set_tensor(self.input_details[0]['index'], input_data)
          self.interpreter.invoke()
          output = self.interpreter.get_tensor(self.output_details[0]['index'])
          self.last_action = np.argmax(output[0])
      return self.last_action
  \<close>
  Python integers are unbounded, so \<open>frame_skip\<close> and \<open>frame_count\<close> are \<open>int\<close>.
  An action is an index into the score row, a \<open>nat\<close>: 0 is left, 1 is stay, 2 is right.
\<close>

subsection \<open>Errors\<close>

text \<open>
  Every exception that can leave the two functions is a value:
  \<open>ZeroDivisionError\<close> is raised by \<^verbatim>\<open>%\<close> when \<open>frame_skip\<close> is 0,
  \<open>ValueError\<close> by \<^verbatim>\<open>np.argmax\<close> on an empty row, and \<open>InterpreterError\<close> stands for
  whatever the TFLite interpreter raises while it is built or run.
\<close>

datatype error = ZeroDivisionError | ValueError | InterpreterError

subsection \<open>The agent\<close>

text \<open>
  The TFLite interpreter is a library object, not code of the module. It is a parameter:
  a function from the state handed to \<^verbatim>\<open>set_tensor\<close> to either the exception raised on
  the way (by \<^verbatim>\<open>np.array\<close>, \<^verbatim>\<open>set_tensor\<close>, \<^verbatim>\<open>invoke\<close>, \<^verbatim>\<open>get_tensor\<close> or
  \<^verbatim>\<open>output[0]\<close>) or the score row \<^verbatim>\<open>output[0]\<close>. The field \<open>invoked\<close> is the history of
  the interpreter object: the states of the calls that reached it, oldest first.
  Scores are values of any linear order; a NaN score is outside the model.
\<close>

record ('s, 'a) PongAgent =
  interpreter :: "'s \<Rightarrow> error + 'a list"
  invoked :: "'s list"
  frame_skip :: int
  frame_count :: int
  last_action :: nat

text \<open>
  The constructor. \<open>loaded\<close> is the outcome of building the interpreter and allocating
  its tensors: the exception raised, or the function the loaded model computes.
  Nothing in the constructor looks at the value of \<open>frame_skip\<close>.
\<close>

definition PongAgent_init ::
    "error + ('s \<Rightarrow> error + 'a list) \<Rightarrow> int \<Rightarrow> error + ('s, 'a) PongAgent" where
  "PongAgent_init loaded fs =
     (case loaded of
        Inl e \<Rightarrow> Inl e
      | Inr f \<Rightarrow> Inr \<lparr>interpreter = f, invoked = [], frame_skip = fs,
                     frame_count = 0, last_action = 1\<rparr>)"

subsection \<open>argmax\<close>

text \<open>
  \<^verbatim>\<open>np.argmax\<close> on a one-dimensional array: it starts with the first element as the
  maximum and moves to a later element only when that one is not \<open>\<le>\<close> the maximum so
  far. On an empty array it raises ValueError.
\<close>

fun argmax_loop :: "'a::linorder list \<Rightarrow> nat \<Rightarrow> 'a \<Rightarrow> nat \<Rightarrow> nat" where
  "argmax_loop [] i mp max_ind = max_ind"
| "argmax_loop (x # xs) i mp max_ind =
     (if \<not> x \<le> mp then argmax_loop xs (Suc i) x i
      else argmax_loop xs (Suc i) mp max_ind)"

definition argmax :: "'a::linorder list \<Rightarrow> error + nat" where
  "argmax v = (case v of [] \<Rightarrow> Inl ValueError | x # xs \<Rightarrow> Inr (argmax_loop xs 1 x 0))"

subsection \<open>get_action\<close>

text \<open>
  The method returns the outcome (the exception or the action) together with the
  agent as the call leaves it. The counter is incremented before anything can raise,
  and \<open>last_action\<close> is assigned only after the interpreter and \<^verbatim>\<open>np.argmax\<close> have
  both returned. Python's \<^verbatim>\<open>%\<close> on integers is the floored remainder, as \<open>mod\<close> on
  \<open>int\<close> is, except that it raises when the divisor is 0.
\<close>

definition get_action ::
    "'s \<Rightarrow> ('s, 'a::linorder) PongAgent \<Rightarrow> (error + nat) \<times> ('s, 'a) PongAgent" where
  "get_action state self =
     (let self1 = self\<lparr>frame_count := frame_count self + 1\<rparr> in
      if frame_skip self1 = 0 then (Inl ZeroDivisionError, self1)
      else if frame_count self1 mod frame_skip self1 = 0 then
        (let self2 = self1\<lparr>invoked := invoked self1 @ [state]\<rparr> in
         case interpreter self2 state of
           Inl e \<Rightarrow> (Inl e, self2)
         | Inr output \<Rightarrow>
             (case argmax output of
                Inl e \<Rightarrow> (Inl e, self2)
              | Inr a \<Rightarrow> (Inr a, self2\<lparr>last_action := a\<rparr>)))
      else (Inr (last_action self1), self1))"

subsection \<open>A control loop\<close>

text \<open>
  The loop at the bottom of the module calls \<^verbatim>\<open>agent.get_action(state)\<close> once per
  frame. \<open>run_agent\<close> is the agent after the calls for a list of states, and
  \<open>run_actions\<close> the outcomes of those calls in order; a caller that catches an
  exception goes on with the next frame.
\<close>

fun run_agent :: "('s, 'a::linorder) PongAgent \<Rightarrow> 's list \<Rightarrow> ('s, 'a) PongAgent" where
  "run_agent self [] = self"
| "run_agent self (s # ss) = run_agent (snd (get_action s self)) ss"

fun run_actions :: "('s, 'a::linorder) PongAgent \<Rightarrow> 's list \<Rightarrow> (error + nat) list" where
  "run_actions self [] = []"
| "run_actions self (s # ss) =
     fst (get_action s self) # run_actions (snd (get_action s self)) ss"

text \<open>
  Test doubles for the interpreter: one that answers every state with the same score
  row, and one that always raises.
\<close>

definition scripted :: "'a list \<Rightarrow> 's \<Rightarrow> error + 'a list" where
  "scripted v s = Inr v"

definition failing :: "'s \<Rightarrow> error + 'a list" where
  "failing s = Inl InterpreterError"

text \<open>
  The cache as the specification words it: the action returned on the most recent
  successful inference tick among the first \<open>n\<close> ticks, or stay (1) when there is none.
  \<open>rs\<close> holds the outcomes of the calls, tick \<open>t\<close> at index \<open>t - 1\<close>.
\<close>

fun cached_action :: "int \<Rightarrow> (error + nat) list \<Rightarrow> nat \<Rightarrow> nat" where
  "cached_action k rs 0 = 1"
| "cached_action k rs (Suc n) =
     (if int (Suc n) mod k = 0
      then (case rs ! n of Inr a \<Rightarrow> a | Inl e \<Rightarrow> cached_action k rs n)
      else cached_action k rs n)"

text \<open>
  First-index argmax as the specification words it: \<open>r\<close> is an index of \<open>v\<close>, no score
  is above the score at \<open>r\<close>, and every score before \<open>r\<close> is strictly below it.
\<close>

definition first_max :: "'a::linorder list \<Rightarrow> nat \<Rightarrow> bool" where
  "first_max v r \<longleftrightarrow>
     r < length v \<and> (\<forall>j<length v. v ! j \<le> v ! r) \<and> (\<forall>j<r. v ! j < v ! r)"

section \<open>Basic facts\<close>

lemma get_action_frame_count:
  "frame_count (snd (get_action s a)) = frame_count a + 1"
  by (simp add: get_action_def Let_def split: sum.splits)

lemma get_action_frame_skip:
  "frame_skip (snd (get_action s a)) = frame_skip a"
  by (simp add: get_action_def Let_def split: sum.splits)

lemma get_action_interpreter:
  "interpreter (snd (get_action s a)) = interpreter a"
  by (simp add: get_action_def Let_def split: sum.splits)

lemma run_agent_append:
  "run_agent a (xs @ ys) = run_agent (run_agent a xs) ys"
  by (induction xs arbitrary: a) simp_all

lemma run_actions_append:
  "run_actions a (xs @ ys) = run_actions a xs @ run_actions (run_agent a xs) ys"
  by (induction xs arbitrary: a) simp_all

lemma length_run_actions: "length (run_actions a ss) = length ss"
  by (induction ss arbitrary: a) simp_all

lemma run_agent_frame_count:
  "frame_count (run_agent a ss) = frame_count a + int (length ss)"
  by (induction ss arbitrary: a) (simp_all add: get_action_frame_count)

lemma run_agent_frame_skip: "frame_skip (run_agent a ss) = frame_skip a"
  by (induction ss arbitrary: a) (simp_all add: get_action_frame_skip)

lemma run_agent_interpreter: "interpreter (run_agent a ss) = interpreter a"
  by (induction ss arbitrary: a) (simp_all add: get_action_interpreter)

lemma run_agent_take_Suc:
  "i < length ss \<Longrightarrow>
     run_agent a (take (Suc i) ss) = snd (get_action (ss ! i) (run_agent a (take i ss)))"
  by (simp add: take_Suc_conv_app_nth run_agent_append)

lemma run_actions_nth:
  "i < length ss \<Longrightarrow>
     run_actions a ss ! i = fst (get_action (ss ! i) (run_agent a (take i ss)))"
proof (induction ss arbitrary: a i)
  case Nil
  then show ?case by simp
next
  case (Cons s ss)
  then show ?case by (cases i) simp_all
qed


lemma get_action_last_action:
  "frame_skip a \<noteq> 0 \<Longrightarrow>
     last_action (snd (get_action s a)) =
       (if (frame_count a + 1) mod frame_skip a = 0
        then (case fst (get_action s a) of Inr x \<Rightarrow> x | Inl e \<Rightarrow> last_action a)
        else last_action a)"
  by (simp add: get_action_def Let_def split: sum.splits)

lemma get_action_skip_tick:
  "frame_skip a \<noteq> 0 \<Longrightarrow> (frame_count a + 1) mod frame_skip a \<noteq> 0 \<Longrightarrow>
     get_action s a = (Inr (last_action a), a\<lparr>frame_count := frame_count a + 1\<rparr>)"
  by (simp add: get_action_def Let_def)

lemma get_action_frame_skip_zero:
  "frame_skip a = 0 \<Longrightarrow>
     get_action s a = (Inl ZeroDivisionError, a\<lparr>frame_count := frame_count a + 1\<rparr>)"
  by (simp add: get_action_def Let_def)

lemma init_Inr:
  "PongAgent_init (Inr f) k = Inr a \<longleftrightarrow>
     a = \<lparr>interpreter = f, invoked = [], frame_skip = k, frame_count = 0, last_action = 1\<rparr>"
  by (auto simp: PongAgent_init_def)




subsection \<open>argmax returns the first maximum\<close>

lemma argmax_loop_first_max:
  assumes "length ys = i" "m < i" "ys ! m = mp"
    and "\<forall>j<i. ys ! j \<le> mp" and "\<forall>j<m. ys ! j < mp"
  shows "first_max (ys @ xs) (argmax_loop xs i mp m)"
  using assms
proof (induction xs arbitrary: ys i mp m)
  case Nil
  then show ?case by (simp add: first_max_def)
next
  case (Cons x xs)
  show ?case
  proof (cases "x \<le> mp")
    case True
    have "first_max ((ys @ [x]) @ xs) (argmax_loop xs (Suc i) mp m)"
    proof (rule Cons.IH)
      show "length (ys @ [x]) = Suc i" using Cons.prems(1) by simp
      show "m < Suc i" using Cons.prems(2) by simp
      show "(ys @ [x]) ! m = mp" using Cons.prems(1,2,3) by (simp add: nth_append)
      show "\<forall>j<Suc i. (ys @ [x]) ! j \<le> mp"
        using Cons.prems(1,4) True by (auto simp: nth_append less_Suc_eq)
      show "\<forall>j<m. (ys @ [x]) ! j < mp"
        using Cons.prems(1,2,5) by (auto simp: nth_append)
    qed
    with True show ?thesis by simp
  next
    case False
    then have lt: "mp < x" by simp
    have "first_max ((ys @ [x]) @ xs) (argmax_loop xs (Suc i) x i)"
    proof (rule Cons.IH)
      show "length (ys @ [x]) = Suc i" using Cons.prems(1) by simp
      show "i < Suc i" by simp
      show "(ys @ [x]) ! i = x" using Cons.prems(1) by (simp add: nth_append)
      show "\<forall>j<Suc i. (ys @ [x]) ! j \<le> x"
        using Cons.prems(1,4) lt by (auto simp: nth_append less_Suc_eq intro: order_trans less_imp_le)
      show "\<forall>j<i. (ys @ [x]) ! j < x"
        using Cons.prems(1,4) lt by (auto simp: nth_append intro: le_less_trans)
    qed
    with False show ?thesis by simp
  qed
qed

lemma argmax_first_max:
  "v \<noteq> [] \<Longrightarrow> \<exists>r. argmax v = Inr r \<and> first_max v r"
proof -
  assume "v \<noteq> []"
  then obtain x xs where v: "v = x # xs" by (cases v) auto
  have "first_max ([x] @ xs) (argmax_loop xs 1 x 0)"
    by (rule argmax_loop_first_max) simp_all
  then show ?thesis by (simp add: v argmax_def)
qed

subsection \<open>Invariants of the loop\<close>

lemma get_action_range:
  assumes "\<forall>s v. interpreter a s = Inr v \<longrightarrow> length v = 3" and "last_action a < 3"
  shows "last_action (snd (get_action s a)) < 3 \<and>
    (\<forall>x. fst (get_action s a) = Inr x \<longrightarrow> x < 3)"
proof -
  have "r < 3" if "interpreter a s = Inr v" "argmax v = Inr r" for v r
  proof -
    from that(1) assms(1) have len: "length v = 3" by blast
    then have "v \<noteq> []" by auto
    then obtain r' where "argmax v = Inr r'" "first_max v r'"
      using argmax_first_max by blast
    with that(2) len show ?thesis by (simp add: first_max_def)
  qed
  with assms(2) show ?thesis
    by (auto simp: get_action_def Let_def split: sum.splits)
qed

lemma run_range:
  assumes "\<forall>s v. interpreter a s = Inr v \<longrightarrow> length v = 3" and "last_action a < 3"
  shows "last_action (run_agent a ss) < 3 \<and>
    (\<forall>r \<in> set (run_actions a ss). \<forall>x. r = Inr x \<longrightarrow> x < 3)"
  using assms
proof (induction ss arbitrary: a)
  case Nil
  then show ?case by simp
next
  case (Cons s ss)
  let ?b = "snd (get_action s a)"
  have step: "last_action ?b < 3" "\<forall>x. fst (get_action s a) = Inr x \<longrightarrow> x < 3"
    using get_action_range [OF Cons.prems] by simp_all
  have "\<forall>s v. interpreter ?b s = Inr v \<longrightarrow> length v = 3"
    using Cons.prems(1) by (simp add: get_action_interpreter)
  from Cons.IH [OF this step(1)] step(2) show ?case by simp
qed

lemma last_action_is_cached:
  assumes "k \<noteq> 0" "frame_skip a = k" "frame_count a = 0" "last_action a = 1"
  shows "n \<le> length ss \<Longrightarrow>
    last_action (run_agent a (take n ss)) = cached_action k (run_actions a ss) n"
proof (induction n)
  case 0
  then show ?case using assms(4) by simp
next
  case (Suc n)
  then have n: "n < length ss" by simp
  let ?b = "run_agent a (take n ss)"
  have fs: "frame_skip ?b = k" using assms(2) by (simp add: run_agent_frame_skip)
  have fc: "frame_count ?b + 1 = int (Suc n)"
    using assms(3) n by (simp add: run_agent_frame_count)
  have nz: "frame_skip ?b \<noteq> 0" using assms(1) fs by simp
  have out: "fst (get_action (ss ! n) ?b) = run_actions a ss ! n"
    using n by (simp only: run_actions_nth)
  have ih: "last_action ?b = cached_action k (run_actions a ss) n"
    using Suc.IH n by simp
  have "last_action (run_agent a (take (Suc n) ss)) =
      last_action (snd (get_action (ss ! n) ?b))"
    using n by (simp only: run_agent_take_Suc)
  also have "\<dots> = (if int (Suc n) mod k = 0
        then (case run_actions a ss ! n of Inr x \<Rightarrow> x | Inl e \<Rightarrow> last_action ?b)
        else last_action ?b)"
    using get_action_last_action [OF nz, of "ss ! n"] by (simp only: fs fc out)
  also have "\<dots> = cached_action k (run_actions a ss) (Suc n)"
    by (simp add: ih split: sum.splits)
  finally show ?case .
qed

lemma cold_start_run:
  assumes "0 \<le> frame_count a" and "frame_count a + int (length ss) < frame_skip a"
  shows "run_actions a ss = replicate (length ss) (Inr (last_action a)) \<and>
    run_agent a ss = a\<lparr>frame_count := frame_count a + int (length ss)\<rparr>"
  using assms
proof (induction ss arbitrary: a)
  case Nil
  then show ?case by simp
next
  case (Cons s ss)
  let ?b = "a\<lparr>frame_count := frame_count a + 1\<rparr>"
  have nz: "frame_skip a \<noteq> 0" using Cons.prems by simp
  have "(frame_count a + 1) mod frame_skip a = frame_count a + 1"
    using Cons.prems by (simp add: mod_pos_pos_trivial)
  then have tick: "(frame_count a + 1) mod frame_skip a \<noteq> 0"
    using Cons.prems(1) by simp
  have step: "get_action s a = (Inr (last_action a), ?b)"
    using nz tick by (rule get_action_skip_tick)
  have "run_actions ?b ss = replicate (length ss) (Inr (last_action ?b)) \<and>
      run_agent ?b ss = ?b\<lparr>frame_count := frame_count ?b + int (length ss)\<rparr>"
    using Cons.prems by (intro Cons.IH) simp_all
  then show ?case by (simp add: step add.assoc)
qed


section \<open>The claims\<close>



text \<open>
  C2, as stated: construction with an integer \<open>frame_skip < 1\<close> fails. It does not:
  the constructor stores \<open>frame_skip\<close> without looking at it, so with \<open>frame_skip = 0\<close>
  and an interpreter that loads, an agent is produced.
\<close>

theorem init_frame_skip_zero_counterexample:
  "(0::int) < 1 \<and>
   PongAgent_init (Inr (scripted [1/10, 1/5, 9/10::real] :: real list \<Rightarrow> error + real list)) 0 =
     Inr \<lparr>interpreter = scripted [1/10, 1/5, 9/10], invoked = [], frame_skip = 0,
          frame_count = 0, last_action = 1\<rparr>"
  by (simp add: PongAgent_init_def)

text \<open>
  C2, amended: construction with an integer \<open>frame_skip < 1\<close> is not rejected. When the
  interpreter loads, it yields an agent holding that \<open>frame_skip\<close>, with
  \<open>frame_count = 0\<close> and \<open>last_action = 1\<close>; construction fails only when building the
  interpreter raises, and then with that exception.
\<close>

theorem init_does_not_check_frame_skip:
  "k < 1 \<Longrightarrow>
     PongAgent_init (Inr f) k =
       Inr \<lparr>interpreter = f, invoked = [], frame_skip = k, frame_count = 0, last_action = 1\<rparr> \<and>
     PongAgent_init (Inl e) k = (Inl e :: error + ('s, 'a) PongAgent)"
  by (simp add: PongAgent_init_def)

theorem init_does_not_check_frame_skip_witness:
  "(-3::int) < 1 \<and>
   PongAgent_init (Inr (failing :: nat \<Rightarrow> error + int list)) (-3) =
     Inr \<lparr>interpreter = failing, invoked = [], frame_skip = -3, frame_count = 0,
          last_action = 1\<rparr> \<and>
   PongAgent_init (Inl InterpreterError) (-3) =
     (Inl InterpreterError :: error + (nat, int) PongAgent)"
  using init_does_not_check_frame_skip [of "-3" "failing :: nat \<Rightarrow> error + int list" InterpreterError]
  by simp

text \<open>
  C3. On a freshly constructed agent with a frame skip other than 0, a call whose
  1-indexed tick is not a multiple of \<open>frame_skip\<close> returns the action returned on the
  most recent earlier inference tick that succeeded, or stay (1) when there is none.
\<close>

theorem cache_reuse:
  assumes "k \<noteq> 0" and "PongAgent_init (Inr f) k = Inr a"
    and "i < length ss" and "int (Suc i) mod k \<noteq> 0"
  shows "run_actions a ss ! i = Inr (cached_action k (run_actions a ss) i)"
proof -
  from assms(2) have a: "frame_skip a = k" "frame_count a = 0" "last_action a = 1"
    by (simp_all add: init_Inr)
  let ?b = "run_agent a (take i ss)"
  have fs: "frame_skip ?b = k" using a(1) by (simp add: run_agent_frame_skip)
  have fc: "frame_count ?b + 1 = int (Suc i)"
    using a(2) assms(3) by (simp add: run_agent_frame_count)
  have "run_actions a ss ! i = fst (get_action (ss ! i) ?b)"
    using assms(3) by (rule run_actions_nth)
  also have "\<dots> = Inr (last_action ?b)"
    using get_action_skip_tick [of ?b "ss ! i"] assms(1,4) fs fc by simp
  also have "last_action ?b = cached_action k (run_actions a ss) i"
    using last_action_is_cached [OF assms(1) a, of i ss] assms(3) by simp
  finally show ?thesis .
qed

theorem cache_reuse_witness:
  "(4::int) \<noteq> 0 \<and> (5::nat) < length [1, 2, 3, 4, 5, 6, 7::nat] \<and> int (Suc 5) mod 4 \<noteq> 0 \<and>
   run_actions \<lparr>interpreter = scripted [1/10, 1/5, 9/10 :: real], invoked = [],
       frame_skip = 4, frame_count = 0, last_action = 1\<rparr> [1, 2, 3, 4, 5, 6, 7::nat] ! 5 =
     Inr 2"
proof -
  let ?f = "scripted [1/10, 1/5, 9/10 :: real] :: nat \<Rightarrow> error + real list"
  let ?a = "\<lparr>interpreter = ?f, invoked = [], frame_skip = 4, frame_count = 0, last_action = 1\<rparr>"
  let ?ss = "[1, 2, 3, 4, 5, 6, 7::nat]"
  have i: "PongAgent_init (Inr ?f) 4 = Inr ?a" by (simp add: PongAgent_init_def)
  have rs: "run_actions ?a ?ss = [Inr 1, Inr 1, Inr 1, Inr 2, Inr 2, Inr 2, Inr 2]"
    by (simp add: get_action_def Let_def scripted_def argmax_def)
  have c: "cached_action 4 [Inr 1, Inr 1, Inr 1, Inr 2, Inr 2, Inr 2, Inr 2] 5 = 2"
    by code_simp
  have "run_actions ?a ?ss ! 5 = Inr (cached_action 4 (run_actions ?a ?ss) 5)"
    by (rule cache_reuse [OF _ i]) simp_all
  then show ?thesis by (simp only: rs c) simp
qed

text \<open>
  C4. When the interpreter raises on an inference tick, the call surfaces that
  exception and returns no action, \<open>last_action\<close> is what it was before the call, and
  \<open>frame_count\<close> has gone up by 1.
\<close>

theorem failure_keeps_last_action:
  assumes "frame_skip a \<noteq> 0" and "(frame_count a + 1) mod frame_skip a = 0"
    and "interpreter a s = Inl e"
  shows "fst (get_action s a) = Inl e \<and>
    last_action (snd (get_action s a)) = last_action a \<and>
    frame_count (snd (get_action s a)) = frame_count a + 1"
  using assms by (simp add: get_action_def Let_def)

theorem failure_keeps_last_action_witness:
  "fst (get_action (7::nat) \<lparr>interpreter = failing :: nat \<Rightarrow> error + int list, invoked = [],
        frame_skip = 4, frame_count = 7, last_action = 2\<rparr>) = Inl InterpreterError \<and>
   last_action (snd (get_action (7::nat) \<lparr>interpreter = failing :: nat \<Rightarrow> error + int list,
        invoked = [], frame_skip = 4, frame_count = 7, last_action = 2\<rparr>)) = 2 \<and>
   frame_count (snd (get_action (7::nat) \<lparr>interpreter = failing :: nat \<Rightarrow> error + int list,
        invoked = [], frame_skip = 4, frame_count = 7, last_action = 2\<rparr>)) = 8"
  using failure_keeps_last_action [of
      "\<lparr>interpreter = failing :: nat \<Rightarrow> error + int list, invoked = [],
        frame_skip = 4, frame_count = 7, last_action = 2\<rparr>" 7 InterpreterError]
  by (simp add: failing_def)

text \<open>
  C5. A freshly constructed agent with \<open>frame_skip = 4\<close> returns stay (1) at ticks 1, 2
  and 3 without running the interpreter, and at tick 4 runs it on the state of tick 4
  and returns the argmax of its score row (or surfaces the exception). More generally,
  the calls before tick \<open>frame_skip\<close> all return stay and never run the interpreter.
\<close>

theorem cold_start:
  "(PongAgent_init (Inr f) 4 = Inr a \<longrightarrow>
      run_actions a [s1, s2, s3, s4] =
        [Inr 1, Inr 1, Inr 1, (case f s4 of Inl e \<Rightarrow> Inl e | Inr v \<Rightarrow> argmax v)] \<and>
      invoked (run_agent a [s1, s2, s3]) = [] \<and>
      invoked (run_agent a [s1, s2, s3, s4]) = [s4]) \<and>
   (PongAgent_init (Inr g) k = Inr b \<and> int (length ss) < k \<longrightarrow>
      run_actions b ss = replicate (length ss) (Inr 1) \<and> invoked (run_agent b ss) = [])"
proof (intro conjI impI)
  assume "PongAgent_init (Inr f) 4 = Inr a"
  then have a: "a = \<lparr>interpreter = f, invoked = [], frame_skip = 4, frame_count = 0,
      last_action = 1\<rparr>" by (simp add: init_Inr)
  show "run_actions a [s1, s2, s3, s4] =
        [Inr 1, Inr 1, Inr 1, (case f s4 of Inl e \<Rightarrow> Inl e | Inr v \<Rightarrow> argmax v)]"
    by (simp add: a get_action_def Let_def split: sum.splits)
  show "invoked (run_agent a [s1, s2, s3]) = []"
    by (simp add: a get_action_def Let_def)
  show "invoked (run_agent a [s1, s2, s3, s4]) = [s4]"
    by (simp add: a get_action_def Let_def split: sum.splits)
next
  assume h: "PongAgent_init (Inr g) k = Inr b \<and> int (length ss) < k"
  then have b: "frame_skip b = k" "frame_count b = 0" "last_action b = 1" "invoked b = []"
    by (simp_all add: init_Inr)
  have r: "run_actions b ss = replicate (length ss) (Inr (last_action b)) \<and>
    run_agent b ss = b\<lparr>frame_count := frame_count b + int (length ss)\<rparr>"
    using h b by (intro cold_start_run) simp_all
  show "run_actions b ss = replicate (length ss) (Inr 1)"
    using r b(3) by simp
  show "invoked (run_agent b ss) = []"
    using r b(4) by simp
qed

theorem cold_start_witness:
  "PongAgent_init (Inr (scripted [1/10, 1/5, 9/10 :: real])) 4 =
     Inr \<lparr>interpreter = scripted [1/10, 1/5, 9/10], invoked = [] :: nat list, frame_skip = 4,
          frame_count = 0, last_action = 1\<rparr> \<and>
   int (length [1, 2::nat]) < 4 \<and>
   run_actions \<lparr>interpreter = scripted [1/10, 1/5, 9/10 :: real], invoked = [],
       frame_skip = 4, frame_count = 0, last_action = 1\<rparr> [1, 2, 3, 4::nat] =
     [Inr 1, Inr 1, Inr 1, Inr 2] \<and>
   run_actions \<lparr>interpreter = scripted [1/10, 1/5, 9/10 :: real], invoked = [],
       frame_skip = 4, frame_count = 0, last_action = 1\<rparr> [1, 2::nat] = [Inr 1, Inr 1]"
proof -
  let ?f = "scripted [1/10, 1/5, 9/10 :: real] :: nat \<Rightarrow> error + real list"
  let ?a = "\<lparr>interpreter = ?f, invoked = [], frame_skip = 4, frame_count = 0, last_action = 1\<rparr>"
  have i: "PongAgent_init (Inr ?f) 4 = Inr ?a" by (simp add: PongAgent_init_def)
  have l: "int (length [1, 2::nat]) < 4" by simp
  have v: "(case ?f 4 of Inl e \<Rightarrow> Inl e | Inr v \<Rightarrow> argmax v) = Inr 2"
    by (simp add: scripted_def argmax_def)
  from cold_start [of ?f ?a 1 2 3 4 ?f 4 ?a "[1, 2]"] i l
  have "run_actions ?a [1, 2, 3, 4] =
      [Inr 1, Inr 1, Inr 1, (case ?f 4 of Inl e \<Rightarrow> Inl e | Inr v \<Rightarrow> argmax v)]"
    and "run_actions ?a [1, 2] = replicate (length [1, 2::nat]) (Inr 1)"
    by blast+
  with i l v show ?thesis by (simp add: numeral_2_eq_2)
qed

text \<open>
  C6. On an inference tick where the interpreter returns a non-empty score row, the
  action selected and cached is the first index of a maximal score: no score is
  above it and every earlier score is strictly below it. For the row
  \<open>[0.5, 0.5, 0.3]\<close> the action is 0.
\<close>

theorem argmax_tie_break:
  "(frame_skip a \<noteq> 0 \<and> (frame_count a + 1) mod frame_skip a = 0 \<and>
      interpreter a s = Inr v \<and> v \<noteq> [] \<longrightarrow>
      (\<exists>r. fst (get_action s a) = Inr r \<and> last_action (snd (get_action s a)) = r \<and>
           first_max v r)) \<and>
   fst (get_action (s0::real list)
     \<lparr>interpreter = scripted [1/2, 1/2, 3/10 :: real], invoked = [], frame_skip = 1,
      frame_count = 0, last_action = 1\<rparr>) = Inr 0"
proof (intro conjI impI)
  assume h: "frame_skip a \<noteq> 0 \<and> (frame_count a + 1) mod frame_skip a = 0 \<and>
      interpreter a s = Inr v \<and> v \<noteq> []"
  then obtain r where r: "argmax v = Inr r" "first_max v r"
    using argmax_first_max by blast
  with h have "fst (get_action s a) = Inr r" "last_action (snd (get_action s a)) = r"
    by (simp_all add: get_action_def Let_def)
  with r show "\<exists>r. fst (get_action s a) = Inr r \<and> last_action (snd (get_action s a)) = r \<and>
           first_max v r" by blast
next
  show "fst (get_action s0
     \<lparr>interpreter = scripted [1/2, 1/2, 3/10 :: real], invoked = [], frame_skip = 1,
      frame_count = 0, last_action = 1\<rparr>) = Inr 0"
    by (simp add: get_action_def Let_def scripted_def argmax_def)
qed

theorem argmax_tie_break_witness:
  "fst (get_action (5::nat)
     \<lparr>interpreter = scripted [3, 7, 7 :: int], invoked = [], frame_skip = 2,
      frame_count = 3, last_action = 1\<rparr>) = Inr 1 \<and> first_max [3, 7, 7 :: int] 1"
proof -
  let ?a = "\<lparr>interpreter = scripted [3, 7, 7 :: int], invoked = [] :: nat list, frame_skip = 2,
      frame_count = 3, last_action = 1\<rparr>"
  have h: "frame_skip ?a \<noteq> 0 \<and> (frame_count ?a + 1) mod frame_skip ?a = 0 \<and>
      interpreter ?a 5 = Inr [3, 7, 7] \<and> [3, 7, 7 :: int] \<noteq> []"
    by (simp add: scripted_def)
  have "\<exists>r. fst (get_action 5 ?a) = Inr r \<and> last_action (snd (get_action 5 ?a)) = r \<and>
      first_max [3, 7, 7 :: int] r"
    by (rule argmax_tie_break [THEN conjunct1, THEN mp, OF h])
  then obtain r where "fst (get_action 5 ?a) = Inr r" "first_max [3, 7, 7 :: int] r" by blast
  moreover have "fst (get_action 5 ?a) = Inr 1"
    by (simp add: get_action_def Let_def scripted_def argmax_def)
  ultimately show ?thesis by simp
qed

text \<open>
  C7. For every \<open>frame_skip \<ge> 1\<close>, construction with an interpreter that loads yields
  an agent with \<open>frame_count = 0\<close> and \<open>last_action = 1\<close> (stay).
\<close>

theorem init_state:
  "1 \<le> k \<Longrightarrow>
     \<exists>a. PongAgent_init (Inr f) k = Inr a \<and> frame_skip a = k \<and> frame_count a = 0 \<and>
         last_action a = 1"
  by (simp add: PongAgent_init_def)

theorem init_state_witness:
  "(1::int) \<le> 4 \<and>
   (\<exists>a. PongAgent_init (Inr (failing :: nat \<Rightarrow> error + int list)) 4 = Inr a \<and>
        frame_skip a = 4 \<and> frame_count a = 0 \<and> last_action a = 1)"
  using init_state [of 4 "failing :: nat \<Rightarrow> error + int list"] by simp

text \<open>
  C8. Every call of \<open>get_action\<close> raises \<open>frame_count\<close> by exactly 1, whatever the tick
  and whatever the outcome, so \<open>n\<close> calls raise it by \<open>n\<close>, and after \<open>n\<close> calls on a
  freshly constructed agent it is \<open>n\<close>. These are the only operations of the class.
\<close>

theorem frame_count_counts_calls:
  "frame_count (snd (get_action s a)) = frame_count a + 1 \<and>
   frame_count (run_agent a ss) = frame_count a + int (length ss) \<and>
   (PongAgent_init loaded k = Inr a \<longrightarrow> frame_count (run_agent a ss) = int (length ss))"
  by (auto simp: get_action_frame_count run_agent_frame_count PongAgent_init_def
      split: sum.splits)

theorem frame_count_counts_calls_witness:
  "PongAgent_init (Inr (failing :: nat \<Rightarrow> error + int list)) 0 =
     Inr \<lparr>interpreter = failing, invoked = [], frame_skip = 0, frame_count = 0,
          last_action = 1\<rparr> \<and>
   frame_count (run_agent \<lparr>interpreter = failing :: nat \<Rightarrow> error + int list, invoked = [],
     frame_skip = 0, frame_count = 0, last_action = 1\<rparr> [7, 8, 9]) = 3"
  using frame_count_counts_calls [of 7
      "\<lparr>interpreter = failing :: nat \<Rightarrow> error + int list, invoked = [],
        frame_skip = 0, frame_count = 0, last_action = 1\<rparr>" "[7, 8, 9]" "Inr failing" 0]
  by (simp add: PongAgent_init_def)

text \<open>
  C9. When the interpreter only ever returns rows of exactly 3 scores,
  \<open>last_action \<in> {0, 1, 2}\<close> is kept by every call of \<open>get_action\<close> and holds after
  construction, and every action returned by a call on an agent run from construction
  is in \<open>{0, 1, 2}\<close>.
\<close>

theorem action_in_range:
  assumes "\<forall>s v. f s = Inr v \<longrightarrow> length v = 3"
  shows "(interpreter a = f \<and> last_action a \<in> {0, 1, 2} \<longrightarrow>
      last_action (snd (get_action s a)) \<in> {0, 1, 2} \<and>
      (\<forall>x. fst (get_action s a) = Inr x \<longrightarrow> x \<in> {0, 1, 2})) \<and>
    (PongAgent_init (Inr f) k = Inr b \<longrightarrow>
      last_action b \<in> {0, 1, 2} \<and> last_action (run_agent b ss) \<in> {0, 1, 2} \<and>
      (\<forall>r \<in> set (run_actions b ss). \<forall>x. r = Inr x \<longrightarrow> x \<in> {0, 1, 2}))"
proof -
  have set3: "(n \<in> {0, 1, 2}) = (n < 3)" for n :: nat by auto
  have one: "last_action (snd (get_action s a)) < 3 \<and>
      (\<forall>x. fst (get_action s a) = Inr x \<longrightarrow> x < 3)"
    if "interpreter a = f \<and> last_action a < 3"
    using get_action_range [of a s] assms that by simp
  have two: "last_action b < 3 \<and> last_action (run_agent b ss) < 3 \<and>
      (\<forall>r \<in> set (run_actions b ss). \<forall>x. r = Inr x \<longrightarrow> x < 3)"
    if "PongAgent_init (Inr f) k = Inr b"
  proof -
    from that have b: "interpreter b = f" "last_action b = 1" by (simp_all add: init_Inr)
    then have "last_action b < 3" by simp
    with run_range [of b ss] assms b(1) show ?thesis by simp
  qed
  from one two show ?thesis unfolding set3 by blast
qed

theorem action_in_range_witness:
  "PongAgent_init (Inr (scripted [1/10, 1/5, 9/10 :: real])) 2 =
     Inr \<lparr>interpreter = scripted [1/10, 1/5, 9/10], invoked = [] :: nat list, frame_skip = 2,
          frame_count = 0, last_action = 1\<rparr> \<and>
   last_action (run_agent \<lparr>interpreter = scripted [1/10, 1/5, 9/10 :: real],
     invoked = [] :: nat list, frame_skip = 2, frame_count = 0, last_action = 1\<rparr> [5, 6, 7])
     \<in> {0, 1, 2}"
proof -
  let ?f = "scripted [1/10, 1/5, 9/10 :: real] :: nat \<Rightarrow> error + real list"
  let ?b = "\<lparr>interpreter = ?f, invoked = [] :: nat list, frame_skip = 2,
          frame_count = 0, last_action = 1\<rparr>"
  have h: "\<forall>s v. ?f s = Inr v \<longrightarrow> length v = 3"
    by (auto simp: scripted_def)
  have i: "PongAgent_init (Inr ?f) 2 = Inr ?b"
    by (simp add: PongAgent_init_def)
  from action_in_range [OF h, of ?b 5 2 ?b "[5, 6, 7]"] i
  have "last_action (run_agent ?b [5, 6, 7]) \<in> {0, 1, 2}" by blast
  with i show ?thesis by blast
qed



end
